theory Spec2Isabelle
  imports Main
begin

section \<open>The batching loop of \<open>check\<close> (pytools/commands.py)\<close>

text \<open>
  \<open>check\<close> hands the Java files of a source directory to Checkstyle in batches. The inner
  \<open>while\<close> loop walks the list with an index \<open>i\<close> and a running \<open>size\<close>, and stops at
  the first file whose \<open>len + 1\<close> would bring the size to the bound or beyond; the outer loop
  cuts \<open>javafilelist[:i]\<close> off as the batch and goes on with \<open>javafilelist[i:]\<close>.

  \<open>scan_batch\<close> is the inner loop (it returns the final \<open>i\<close>), \<open>batch_loop\<close> the outer one.
  The outer loop has no bound on its number of iterations, so it is a partial function:
  \<open>None\<close> means that the loop never ends. The bound is the literal \<open>30000\<close> in the source;
  it is a parameter here and \<open>check_batches\<close> fixes it. The model collects the batches in
  the order in which the source passes them to \<open>env.run_java\<close>, on the run in which every
  such call returns.
\<close>

function scan_batch :: "nat \<Rightarrow> string list \<Rightarrow> nat \<Rightarrow> nat \<Rightarrow> nat" where
  "scan_batch maxBytes javafilelist i sz =
     (if i < length javafilelist then
        (let s = length (javafilelist ! i) + 1 in
         if sz + s < maxBytes then scan_batch maxBytes javafilelist (i + 1) (sz + s)
         else i)
      else i)"
  by pat_completeness auto
termination
  by (relation "measure (\<lambda>(maxBytes, javafilelist, i, sz). length javafilelist - i)") auto

declare scan_batch.simps [simp del]

partial_function (option) batch_loop :: "nat \<Rightarrow> string list \<Rightarrow> string list list \<Rightarrow> string list list option" where
  "batch_loop maxBytes javafilelist batches =
     (if length javafilelist \<noteq> 0 then
        (let i = scan_batch maxBytes javafilelist 0 0;
             batch = take i javafilelist;
             rest = drop i javafilelist
         in batch_loop maxBytes rest (batches @ [batch]))
      else Some batches)"

declare batch_loop.simps [code]

definition serialized :: "string list \<Rightarrow> nat" where
  "serialized batch = sum_list (map (\<lambda>item. length item + 1) batch)"

definition check_batches :: "string list \<Rightarrow> string list list option" where
  "check_batches javafilelist = batch_loop 30000 javafilelist []"

section \<open>The environment object of mx.py\<close>

text \<open>
  Strings are byte strings (Python 2 \<open>str\<close>). Exceptions are values: a function that can
  raise returns \<open>Inl\<close> of the exception next to the state reached when it was raised.
  What lies outside the program is the record \<open>world\<close>: child processes (their exit status
  and captured output only; what a child does to the file system is not tracked), the
  library calls \<open>shlex.split\<close>, \<open>urllib2.urlopen\<close>, \<open>zipfile.ZipFile\<close>, \<open>os.makedirs\<close>,
  \<open>os.path.getmtime\<close>, and whether opening a file fails. The fields of \<open>env\<close> up to
  \<open>java_initialized\<close> are attributes of the \<open>Env\<close> object; \<open>console\<close> (lines printed),
  \<open>procs\<close> (child processes launched, by the call that launched them), \<open>files\<close>,
  \<open>dirs\<close> and \<open>writes\<close> (the writes this program performed) record its effects.
  Paths follow \<open>posixpath\<close>.
\<close>

subsection \<open>Python string operations used by mx.py\<close>

definition startswith :: "string \<Rightarrow> string \<Rightarrow> bool" where
  "startswith s p = (take (length p) s = p)"

fun find_sub :: "string \<Rightarrow> string \<Rightarrow> nat option" where
  "find_sub [] sub = (if sub = [] then Some 0 else None)"
| "find_sub (c # cs) sub =
     (if startswith (c # cs) sub then Some 0 else map_option Suc (find_sub cs sub))"

definition partition_str :: "string \<Rightarrow> string \<Rightarrow> string \<times> string \<times> string" where
  "partition_str s sep =
     (case find_sub s sep of
        None \<Rightarrow> (s, [], [])
      | Some i \<Rightarrow> (take i s, sep, drop (i + length sep) s))"

fun join_str :: "string \<Rightarrow> string list \<Rightarrow> string" where
  "join_str sep [] = []"
| "join_str sep [x] = x"
| "join_str sep (x # y # ys) = x @ sep @ join_str sep (y # ys)"

definition isspace :: "char \<Rightarrow> bool" where
  "isspace c = (c \<in> set [CHR '' '', CHR 0x09, CHR 0x0A, CHR 0x0B, CHR 0x0C, CHR 0x0D])"

fun split_ws :: "string \<Rightarrow> string \<Rightarrow> string list" where
  "split_ws cur [] = (if cur = [] then [] else [cur])"
| "split_ws cur (c # cs) =
     (if isspace c then (if cur = [] then split_ws [] cs else cur # split_ws [] cs)
      else split_ws (cur @ [c]) cs)"

definition dirname :: "string \<Rightarrow> string" where
  "dirname p =
     (let head = rev (dropWhile (\<lambda>c. c \<noteq> CHR ''/'') (rev p))
      in if head \<noteq> [] \<and> head \<noteq> replicate (length head) (CHR ''/'')
         then rev (dropWhile (\<lambda>c. c = CHR ''/'') (rev head))
         else head)"

definition path_join :: "string \<Rightarrow> string \<Rightarrow> string" where
  "path_join a b =
     (if startswith b ''/'' then b
      else if a = [] \<or> (a \<noteq> [] \<and> last a = CHR ''/'') then a @ b
      else a @ ''/'' @ b)"


subsection \<open>Exceptions, the environment object and the outside world\<close>

datatype exit_arg = Code int | Message string

datatype exn =
    SystemExit exit_arg
  | IOError string
  | BadZipfile string
  | OSError int string
  | CalledProcessError int "string list" "string option"
  | KeyError string
  | ValueError string
  | AssertionError
  | IndexError
  | TypeError
  | AttributeError

datatype proc = LaunchError int string | Exited int string

datatype launched =
    Via_call "string list"
  | Via_check_call "string list"
  | Via_check_output "string list"

datatype jargs = Raw string | Tokens "string list"

record env =
  verbose :: bool
  java :: string
  javac :: string
  java_dbg :: bool
  java_args :: jargs
  java_args_pfx :: "string list"
  java_args_sfx :: "string list"
  java_initialized :: bool
  console :: "string list"
  procs :: "launched list"
  files :: "string \<rightharpoonup> string"
  dirs :: "string set"
  writes :: "(string \<times> string) list"

record world =
  subprocess :: "string list \<Rightarrow> proc"
  shlex_split :: "string \<Rightarrow> exn + string list"
  urlopen :: "string \<Rightarrow> exn + string"
  ZipFile :: "string \<Rightarrow> exn + (string \<rightharpoonup> string)"
  read_error :: "string \<Rightarrow> string option"
  write_error :: "string \<Rightarrow> string option"
  makedirs :: "string \<Rightarrow> string set \<Rightarrow> exn + string set"
  getmtime :: "string \<Rightarrow> exn + int"
  script_file :: string

definition abort :: "exit_arg \<Rightarrow> exn" where
  "abort codeOrMessage = SystemExit codeOrMessage"

definition log :: "string \<Rightarrow> env \<Rightarrow> env" where
  "log msg s = s\<lparr>console := console s @ [msg]\<rparr>"

definition exists :: "env \<Rightarrow> string \<Rightarrow> bool" where
  "exists s p = (files s p \<noteq> None \<or> p \<in> dirs s)"

definition read_file :: "world \<Rightarrow> string \<Rightarrow> env \<Rightarrow> exn + string" where
  "read_file w path s =
     (case read_error w path of
        Some msg \<Rightarrow> Inl (IOError msg)
      | None \<Rightarrow>
          (case files s path of
             None \<Rightarrow>
               Inl (IOError ((if path \<in> dirs s then ''[Errno 21] Is a directory: ''
                              else ''[Errno 2] No such file or directory: '')
                             @ [CHR 0x27] @ path @ [CHR 0x27]))
           | Some old \<Rightarrow> Inr old))"

definition write_file :: "world \<Rightarrow> string \<Rightarrow> string \<Rightarrow> env \<Rightarrow> exn + env" where
  "write_file w path data s =
     (case write_error w path of
        Some msg \<Rightarrow> Inl (IOError msg)
      | None \<Rightarrow>
          if path \<in> dirs s
          then Inl (IOError (''[Errno 21] Is a directory: '' @ [CHR 0x27] @ path @ [CHR 0x27]))
          else Inr (s\<lparr>files := (files s)(path \<mapsto> data),
                      writes := writes s @ [(path, data)]\<rparr>))"

definition stream_read :: "string \<Rightarrow> string \<times> string" where
  "stream_read f = (f, [])"

subsection \<open>Env.run\<close>

text \<open>
  Without sinks \<open>run\<close> calls \<open>subprocess.call\<close>; with a sink it starts the child with
  \<open>Popen\<close> and waits for it with \<open>p.wait()\<close>. Either way \<open>retcode\<close> is the exit status of
  the child, and \<open>OSError\<close> is raised when the child cannot be started. The threads that
  hand the lines of the child to the sinks are not part of the model. The assertions on
  \<open>args\<close> hold by typing. An empty \<open>args\<close> makes \<open>subprocess\<close> raise \<open>IndexError\<close>
  (it reads \<open>args[0]\<close>) before any child exists; \<open>IndexError\<close> is not an \<open>OSError\<close>
  and leaves \<open>run\<close> uncaught.

  \<open>exit_status\<close> is the status with which the Python process ends when an exception
  reaches the top level: the integer of a \<open>SystemExit\<close>, as the docstring of \<open>abort\<close>
  says, and 1 for a \<open>SystemExit\<close> with a message and for every other exception
  (\<open>main\<close> catches \<open>KeyboardInterrupt\<close> only).
\<close>

definition exit_status :: "exn \<Rightarrow> int" where
  "exit_status e = (case e of SystemExit (Code n) \<Rightarrow> n | _ \<Rightarrow> 1)"

definition run :: "world \<Rightarrow> string list \<Rightarrow> bool \<Rightarrow> env \<Rightarrow> (exn + int) \<times> env" where
  "run w args nonZeroIsFatal s =
     (let s1 = (if verbose s then log (join_str '' '' args) s else s);
          s2 = s1\<lparr>procs := procs s1 @ [Via_call args]\<rparr>
      in if args = [] then (Inl IndexError, s1)
         else case subprocess w args of
           LaunchError errno msg \<Rightarrow>
             (let s3 = log (''Error executing '' @ [CHR 0x27] @ join_str '' '' args
                             @ [CHR 0x27] @ '': '' @ msg) s2
              in if verbose s then (Inl (OSError errno msg), s3)
                 else (Inl (abort (Code errno)), s3))
         | Exited retcode output \<Rightarrow>
             if retcode \<noteq> 0 \<and> nonZeroIsFatal then
               (if verbose s
                then (Inl (CalledProcessError retcode [join_str '' '' args] None), s2)
                else (Inl (abort (Code retcode)), s2))
             else (Inr retcode, s2))"

subsection \<open>Env.init_java, Env.format_java_cmd, Env.run_java\<close>

text \<open>
  \<open>java_args\<close> is a string until \<open>init_java\<close> has split it and a list afterwards
  (\<open>jargs\<close>); where the source would apply a string operation to the list, or a list
  operation to the string, the model raises as Python does. \<open>split_args\<close> is the three
  assignments that tokenize the argument strings, \<open>probe_java\<close> the two nested \<open>try\<close>
  blocks around the version probes, \<open>check_version\<close> the parsing of the probe's output
  with its two assertions.
\<close>

definition check_output :: "world \<Rightarrow> string list \<Rightarrow> env \<Rightarrow> (exn + string) \<times> env" where
  "check_output w cmd s =
     (let s1 = s\<lparr>procs := procs s @ [Via_check_output cmd]\<rparr>
      in case subprocess w cmd of
           LaunchError errno msg \<Rightarrow> (Inl (OSError errno msg), s1)
         | Exited retcode output \<Rightarrow>
             if retcode \<noteq> 0 then (Inl (CalledProcessError retcode cmd (Some output)), s1)
             else (Inr output, s1))"

definition check_call :: "world \<Rightarrow> string list \<Rightarrow> env \<Rightarrow> (exn + unit) \<times> env" where
  "check_call w cmd s =
     (let s1 = s\<lparr>procs := procs s @ [Via_check_call cmd]\<rparr>
      in case subprocess w cmd of
           LaunchError errno msg \<Rightarrow> (Inl (OSError errno msg), s1)
         | Exited retcode output \<Rightarrow>
             if retcode \<noteq> 0 then (Inl (CalledProcessError retcode cmd None), s1)
             else (Inr (), s1))"

definition delAtAndSplit :: "world \<Rightarrow> string \<Rightarrow> exn + string list" where
  "delAtAndSplit w s = shlex_split w (dropWhile (\<lambda>c. c = CHR ''@'') s)"

fun sum_map_delAtAndSplit :: "world \<Rightarrow> string list \<Rightarrow> exn + string list" where
  "sum_map_delAtAndSplit w [] = Inr []"
| "sum_map_delAtAndSplit w (a # as) =
     (case delAtAndSplit w a of
        Inl e \<Rightarrow> Inl e
      | Inr ts \<Rightarrow>
          (case sum_map_delAtAndSplit w as of
             Inl e \<Rightarrow> Inl e
           | Inr rest \<Rightarrow> Inr (ts @ rest)))"

definition split_args :: "world \<Rightarrow> env \<Rightarrow> (exn + unit) \<times> env" where
  "split_args w s =
     (case java_args s of
        Tokens ts \<Rightarrow> (Inl AttributeError, s)
      | Raw r \<Rightarrow>
          (case delAtAndSplit w r of
             Inl e \<Rightarrow> (Inl e, s)
           | Inr ja \<Rightarrow>
               (let s1 = s\<lparr>java_args := Tokens ja\<rparr>
                in case sum_map_delAtAndSplit w (java_args_pfx s1) of
                     Inl e \<Rightarrow> (Inl e, s1)
                   | Inr pfx \<Rightarrow>
                       (let s2 = s1\<lparr>java_args_pfx := pfx\<rparr>
                        in case sum_map_delAtAndSplit w (java_args_sfx s2) of
                             Inl e \<Rightarrow> (Inl e, s2)
                           | Inr sfx \<Rightarrow> (Inr (), s2\<lparr>java_args_sfx := sfx\<rparr>)))))"

definition probe_java :: "world \<Rightarrow> env \<Rightarrow> (exn + string) \<times> env" where
  "probe_java w s =
     (case check_output w [java s, ''-d64'', ''-version''] s of
        (Inr output, s1) \<Rightarrow>
          (case java_args s1 of
             Tokens ts \<Rightarrow> (Inr output, s1\<lparr>java_args := Tokens (''-d64'' # ts)\<rparr>)
           | Raw r \<Rightarrow> (Inl TypeError, s1))
      | (Inl (CalledProcessError rc cmd out), s1) \<Rightarrow>
          (case check_output w [java s1, ''-version''] s1 of
             (Inr output, s2) \<Rightarrow> (Inr output, s2)
           | (Inl (CalledProcessError returncode cmd2 e_output), s2) \<Rightarrow>
               (Inl (abort (Code returncode)),
                s2\<lparr>console := console s2 @ [case e_output of None \<Rightarrow> ''None'' | Some t \<Rightarrow> t]\<rparr>)
           | (Inl e, s2) \<Rightarrow> (Inl e, s2))
      | (Inl e, s1) \<Rightarrow> (Inl e, s1))"

definition check_version :: "string \<Rightarrow> exn + string" where
  "check_version output =
     (case split_ws [] output of
        [] \<Rightarrow> Inl IndexError
      | t0 # ts \<Rightarrow>
          if \<not> (t0 = ''java'' \<or> t0 = ''openjdk'') then Inl AssertionError
          else (case ts of
                  [] \<Rightarrow> Inl IndexError
                | t1 # ts1 \<Rightarrow>
                    if t1 \<noteq> ''version'' then Inl AssertionError
                    else (case ts1 of
                            [] \<Rightarrow> Inl IndexError
                          | version # ts2 \<Rightarrow>
                              if \<not> startswith version ''\"1.6'' \<and> \<not> startswith version ''\"1.7''
                              then Inl (abort (Message
                                     (''Requires Java version 1.6 or 1.7, got version '' @ version)))
                              else Inr version)))"

definition init_java :: "world \<Rightarrow> env \<Rightarrow> (exn + unit) \<times> env" where
  "init_java w s =
     (if java_initialized s then (Inr (), s)
      else
        (case split_args w s of
           (Inl e, s1) \<Rightarrow> (Inl e, s1)
         | (Inr u, s1) \<Rightarrow>
             (case probe_java w s1 of
                (Inl e, s2) \<Rightarrow> (Inl e, s2)
              | (Inr output, s2) \<Rightarrow>
                  (case check_version output of
                     Inl e \<Rightarrow> (Inl e, s2)
                   | Inr version \<Rightarrow>
                       (if java_dbg s2 then
                          (case java_args s2 of
                             Tokens ts \<Rightarrow>
                               (Inr (), s2\<lparr>java_args := Tokens (ts @ [''-Xdebug'',
                                    ''-Xrunjdwp:transport=dt_socket,server=y,suspend=y,address=8000'']),
                                  java_initialized := True\<rparr>)
                           | Raw r \<Rightarrow> (Inl TypeError, s2))
                        else (Inr (), s2\<lparr>java_initialized := True\<rparr>))))))"

definition format_java_cmd :: "world \<Rightarrow> string list \<Rightarrow> env \<Rightarrow> (exn + string list) \<times> env" where
  "format_java_cmd w args s =
     (case init_java w s of
        (Inl e, s1) \<Rightarrow> (Inl e, s1)
      | (Inr u, s1) \<Rightarrow>
          (case java_args s1 of
             Raw r \<Rightarrow> (Inl TypeError, s1)
           | Tokens ts \<Rightarrow>
               (Inr ([java s1] @ java_args_pfx s1 @ ts @ java_args_sfx s1 @ args), s1)))"

definition run_java :: "world \<Rightarrow> string list \<Rightarrow> bool \<Rightarrow> env \<Rightarrow> (exn + int) \<times> env" where
  "run_java w args nonZeroIsFatal s =
     (case format_java_cmd w args s of
        (Inl e, s1) \<Rightarrow> (Inl e, s1)
      | (Inr cmd, s1) \<Rightarrow> run w cmd nonZeroIsFatal s1)"

subsection \<open>Env.download\<close>

text \<open>
  \<open>attempt\<close> is the body of the \<open>try\<close> block for one locator. Next to its outcome it
  returns the value of the variable \<open>url\<close>, which the archive branch reassigns and the
  handlers print. A response stream is its unread content: \<open>stream_read\<close> returns all of it
  and leaves the stream empty. \<open>download_loop\<close> is the \<open>for\<close> loop with its two \<open>except\<close>
  clauses, \<open>ensure_dir\<close> the creation of the parent directory before the loop, and
  \<open>java_download\<close> the part after the loop, which compiles the helper when it is stale
  and runs it.
\<close>

definition attempt :: "world \<Rightarrow> string \<Rightarrow> string \<Rightarrow> env \<Rightarrow> (exn + unit) \<times> string \<times> env" where
  "attempt w path url s =
     (let s1 = log (''Downloading '' @ url @ '' to '' @ path) s
      in if startswith url ''zip:'' \<or> startswith url ''jar:'' then
           (case find_sub url ''!/'' of
              None \<Rightarrow>
                (Inl (abort (Message (''Zip or jar URL does not contain \"!/\": '' @ url))), url, s1)
            | Some i \<Rightarrow>
                (case partition_str (drop (length ''zip:'') url) ''!/'' of
                   (url1, sep, entry) \<Rightarrow>
                     (case urlopen w url1 of
                        Inl e \<Rightarrow> (Inl e, url1, s1)
                      | Inr f \<Rightarrow>
                          (case stream_read f of
                             (data, f1) \<Rightarrow>
                               (case stream_read f1 of
                                  (zipdata, f2) \<Rightarrow>
                                    (case ZipFile w zipdata of
                                       Inl e \<Rightarrow> (Inl e, url1, s1)
                                     | Inr zf \<Rightarrow>
                                         (case zf entry of
                                            None \<Rightarrow> (Inl (KeyError entry), url1, s1)
                                          | Some data1 \<Rightarrow>
                                              (case write_file w path data1 s1 of
                                                 Inl e \<Rightarrow> (Inl e, url1, s1)
                                               | Inr s2 \<Rightarrow> (Inr (), url1, s2)))))))))
         else
           (case urlopen w url of
              Inl e \<Rightarrow> (Inl e, url, s1)
            | Inr f \<Rightarrow>
                (case stream_read f of
                   (data, f1) \<Rightarrow>
                     (case write_file w path data s1 of
                        Inl e \<Rightarrow> (Inl e, url, s1)
                      | Inr s2 \<Rightarrow> (Inr (), url, s2)))))"

datatype loop_end = Downloaded | Exhausted

fun download_loop :: "world \<Rightarrow> string \<Rightarrow> string list \<Rightarrow> env \<Rightarrow> (exn + loop_end) \<times> env" where
  "download_loop w path [] s = (Inr Exhausted, s)"
| "download_loop w path (url # urls) s =
     (case attempt w path url s of
        (Inr u, url1, s1) \<Rightarrow> (Inr Downloaded, s1)
      | (Inl (IOError e), url1, s1) \<Rightarrow>
          download_loop w path urls (log (''Error reading from '' @ url1 @ '': '' @ e) s1)
      | (Inl (BadZipfile e), url1, s1) \<Rightarrow>
          download_loop w path urls
            (log (''Error in zip file downloaded from '' @ url1 @ '': '' @ e) s1)
      | (Inl e, url1, s1) \<Rightarrow> (Inl e, s1))"

definition ensure_dir :: "world \<Rightarrow> string \<Rightarrow> env \<Rightarrow> exn + env" where
  "ensure_dir w path s =
     (let d = dirname path
      in if d \<noteq> [] \<and> \<not> exists s d then
           (case makedirs w d (dirs s) of
              Inl e \<Rightarrow> Inl e
            | Inr ds \<Rightarrow> Inr (s\<lparr>dirs := ds\<rparr>))
         else Inr s)"

definition helper_stale :: "world \<Rightarrow> string \<Rightarrow> string \<Rightarrow> env \<Rightarrow> exn + bool" where
  "helper_stale w javaClass javaSource s =
     (if \<not> exists s javaClass then Inr True
      else (case getmtime w javaClass of
              Inl e \<Rightarrow> Inl e
            | Inr tc \<Rightarrow>
                (case getmtime w javaSource of
                   Inl e \<Rightarrow> Inl e
                 | Inr ts \<Rightarrow> Inr (tc < ts))))"

definition java_download :: "world \<Rightarrow> string \<Rightarrow> string list \<Rightarrow> env \<Rightarrow> (exn + unit) \<times> env" where
  "java_download w path urls s =
     (let myDir = dirname (script_file w);
          javaSource = path_join myDir ''URLConnectionDownload.java'';
          javaClass = path_join myDir ''URLConnectionDownload.class''
      in case helper_stale w javaClass javaSource s of
           Inl e \<Rightarrow> (Inl e, s)
         | Inr stale \<Rightarrow>
             (case (if stale then check_call w [javac s, ''-d'', myDir, javaSource] s
                    else (Inr (), s)) of
                (Inl e, s1) \<Rightarrow> (Inl e, s1)
              | (Inr u, s1) \<Rightarrow>
                  (case run w ([java s1, ''-cp'', myDir, ''URLConnectionDownload'', path] @ urls)
                          True s1 of
                     (Inl e, s2) \<Rightarrow> (Inl e, s2)
                   | (Inr retcode, s2) \<Rightarrow>
                       if retcode \<noteq> 0 then
                         (Inl (abort (Message
                            (''Could not download to '' @ path
                             @ '' from any of the following URLs:'' @ [CHR 0x0A, CHR 0x0A]
                             @ ''    '' @ join_str (CHR 0x0A # ''    '') urls
                             @ [CHR 0x0A, CHR 0x0A]
                             @ ''Please use a web browser to do the download manually''))), s2)
                       else (Inr (), s2))))"

definition download :: "world \<Rightarrow> string \<Rightarrow> string list \<Rightarrow> env \<Rightarrow> (exn + unit) \<times> env" where
  "download w path urls s =
     (case ensure_dir w path s of
        Inl e \<Rightarrow> (Inl e, s)
      | Inr s0 \<Rightarrow>
          (case download_loop w path urls s0 of
             (Inl e, s1) \<Rightarrow> (Inl e, s1)
           | (Inr Downloaded, s1) \<Rightarrow> (Inr (), s1)
           | (Inr Exhausted, s1) \<Rightarrow> java_download w path urls s1))"

subsection \<open>Env.update_file\<close>

text \<open>
  \<open>old\<close> is \<open>None\<close> when the file does not exist, so that \<open>old == content\<close> holds only
  for an existing file with the same content. An \<open>IOError\<close> from reading or writing
  becomes an abort with a message.
\<close>

definition update_file :: "world \<Rightarrow> string \<Rightarrow> string \<Rightarrow> env \<Rightarrow> (exn + bool) \<times> env" where
  "update_file w path content s =
     (let existed = exists s path
      in case (if existed then map_sum id Some (read_file w path s) else Inr None) of
           Inl (IOError e) \<Rightarrow>
             (Inl (abort (Message (''Error while writing to '' @ path @ '': '' @ e))), s)
         | Inl e \<Rightarrow> (Inl e, s)
         | Inr old \<Rightarrow>
             if old = Some content then (Inr False, s)
             else (case write_file w path content s of
                     Inl (IOError e) \<Rightarrow>
                       (Inl (abort (Message (''Error while writing to '' @ path @ '': '' @ e))), s)
                   | Inl e \<Rightarrow> (Inl e, s)
                   | Inr s1 \<Rightarrow>
                       (Inr True,
                        log ((if existed then ''modified '' else ''created '') @ path) s1)))"

subsection \<open>Auxiliary notions for the download loop\<close>

text \<open>
  \<open>fetch\<close> is the part of one iteration of the loop that comes before the destination is
  opened: the bytes the iteration is about to write, or the exception raised on the way,
  and the value of the variable \<open>url\<close> at that point (\<open>attempt_eq\<close> relates it to
  \<open>attempt\<close>). \<open>recoverable\<close> holds of the outcomes that the two \<open>except\<close> clauses of the
  loop catch.
\<close>

definition fetch :: "world \<Rightarrow> string \<Rightarrow> (exn + string) \<times> string" where
  "fetch w url =
     (if startswith url ''zip:'' \<or> startswith url ''jar:'' then
        (case find_sub url ''!/'' of
           None \<Rightarrow> (Inl (abort (Message (''Zip or jar URL does not contain \"!/\": '' @ url))), url)
         | Some i \<Rightarrow>
             (case partition_str (drop (length ''zip:'') url) ''!/'' of
                (url1, sep, entry) \<Rightarrow>
                  (case urlopen w url1 of
                     Inl e \<Rightarrow> (Inl e, url1)
                   | Inr f \<Rightarrow>
                       (case ZipFile w (fst (stream_read (snd (stream_read f)))) of
                          Inl e \<Rightarrow> (Inl e, url1)
                        | Inr zf \<Rightarrow>
                            (case zf entry of
                               None \<Rightarrow> (Inl (KeyError entry), url1)
                             | Some data1 \<Rightarrow> (Inr data1, url1))))))
      else
        (case urlopen w url of
           Inl e \<Rightarrow> (Inl e, url)
         | Inr f \<Rightarrow> (Inr (fst (stream_read f)), url)))"

definition recoverable :: "exn + unit \<Rightarrow> bool" where
  "recoverable r = (case r of Inl (IOError e) \<Rightarrow> True | Inl (BadZipfile e) \<Rightarrow> True | _ \<Rightarrow> False)"

subsection \<open>An example world and a fresh environment\<close>

text \<open>
  A JDK 1.6 without \<open>-d64\<close> support, one reachable URL that serves a zip archive with the
  entry \<open>x.jar\<close>, every other URL unreachable, a download helper that compiles and then
  exits with status 1.
\<close>

definition example_world :: world where
  "example_world =
     \<lparr>subprocess = (\<lambda>cmd.
        if cmd = [''/jdk/bin/java'', ''-d64'', ''-version'']
          then Exited 1 ''Unrecognized option: -d64''
        else if cmd = [''/jdk/bin/java'', ''-version'']
          then Exited 0 ''java version \"1.6.0_26\"''
        else if take 1 cmd = [''/jdk/bin/javac''] then Exited 0 []
        else Exited 1 []),
      shlex_split = (\<lambda>s. Inr (split_ws [] s)),
      urlopen = (\<lambda>url.
        if url = ''http://good/libs.zip'' then Inr ''PK-libs''
        else Inl (IOError ''<urlopen error>'')),
      ZipFile = (\<lambda>data.
        if data = ''PK-libs'' then Inr [''x.jar'' \<mapsto> ''JARBYTES'']
        else Inl (BadZipfile ''File is not a zip file'')),
      read_error = (\<lambda>p. None),
      write_error = (\<lambda>p. None),
      makedirs = (\<lambda>d ds. Inr (insert d ds)),
      getmtime = (\<lambda>p. Inr 0),
      script_file = ''/mx/mx.py''\<rparr>"

definition example_env :: env where
  "example_env =
     \<lparr>verbose = False, java = ''/jdk/bin/java'', javac = ''/jdk/bin/javac'',
      java_dbg = False, java_args = Raw ''-ea -Xss2m -Xmx1g'',
      java_args_pfx = [], java_args_sfx = [], java_initialized = False,
      console = [], procs = [], files = Map.empty, dirs = {}, writes = []\<rparr>"

subsection \<open>Sequences of calls to the Java helpers\<close>

text \<open>
  A caller's sequence of \<open>format_java_cmd\<close> and \<open>run_java\<close> calls on one \<open>Env\<close>
  object; an exception ends the sequence, as it ends the program. \<open>check_outputs\<close> picks
  the commands run through \<open>subprocess.check_output\<close> (the version probes) out of the
  processes launched, and \<open>validated\<close> is the part of the object that \<open>init_java\<close>
  prepares.
\<close>

datatype java_call = Format_java_cmd "string list" | Run_java "string list" bool

fun do_call :: "world \<Rightarrow> java_call \<Rightarrow> env \<Rightarrow> (exn + unit) \<times> env" where
  "do_call w (Format_java_cmd args) s =
     (case format_java_cmd w args s of
        (Inl e, s1) \<Rightarrow> (Inl e, s1)
      | (Inr cmd, s1) \<Rightarrow> (Inr (), s1))"
| "do_call w (Run_java args nonZeroIsFatal) s =
     (case run_java w args nonZeroIsFatal s of
        (Inl e, s1) \<Rightarrow> (Inl e, s1)
      | (Inr retcode, s1) \<Rightarrow> (Inr (), s1))"

fun do_calls :: "world \<Rightarrow> java_call list \<Rightarrow> env \<Rightarrow> (exn + unit) \<times> env" where
  "do_calls w [] s = (Inr (), s)"
| "do_calls w (c # cs) s =
     (case do_call w c s of
        (Inl e, s1) \<Rightarrow> (Inl e, s1)
      | (Inr u, s1) \<Rightarrow> do_calls w cs s1)"

definition check_outputs :: "launched list \<Rightarrow> string list list" where
  "check_outputs ps =
     concat (map (\<lambda>p. case p of Via_check_output cmd \<Rightarrow> [cmd] | _ \<Rightarrow> []) ps)"

definition validated :: "env \<Rightarrow> string \<times> jargs \<times> string list \<times> string list \<times> bool" where
  "validated s = (java s, java_args s, java_args_pfx s, java_args_sfx s, java_initialized s)"

text \<open>
  Four more worlds: one where every child exits with status 2, one where the Java
  executable cannot be started, one where every Java invocation exits with status 1, and
  one with a JDK 1.5.
\<close>

definition exit2_world :: world where
  "exit2_world = example_world\<lparr>subprocess := (\<lambda>cmd. Exited 2 [])\<rparr>"




section \<open>Properties of the batching loop\<close>

lemma scan_batch_bounds:
  "i \<le> length xs \<Longrightarrow> i \<le> scan_batch B xs i sz \<and> scan_batch B xs i sz \<le> length xs"
proof (induction B xs i sz rule: scan_batch.induct)
  case (1 B xs i sz)
  show ?case
  proof (cases "i < length xs \<and> sz + (length (xs ! i) + 1) < B")
    case True
    then have "scan_batch B xs i sz = scan_batch B xs (i + 1) (sz + (length (xs ! i) + 1))"
      by (subst scan_batch.simps) simp
    moreover have "i + 1 \<le> scan_batch B xs (i + 1) (sz + (length (xs ! i) + 1))
        \<and> scan_batch B xs (i + 1) (sz + (length (xs ! i) + 1)) \<le> length xs"
      using True "1.IH" [of "length (xs ! i) + 1"] by simp
    ultimately show ?thesis by simp
  next
    case False
    then have "scan_batch B xs i sz = i"
      by (subst scan_batch.simps) (auto simp: Let_def)
    with "1.prems" show ?thesis by simp
  qed
qed

lemma scan_batch_fits:
  "i \<le> k \<Longrightarrow> k < scan_batch B xs i sz \<Longrightarrow> length (xs ! k) + 1 < B"
proof (induction B xs i sz rule: scan_batch.induct)
  case (1 B xs i sz)
  show ?case
  proof (cases "i < length xs \<and> sz + (length (xs ! i) + 1) < B")
    case True
    then have eq: "scan_batch B xs i sz = scan_batch B xs (i + 1) (sz + (length (xs ! i) + 1))"
      by (subst scan_batch.simps) simp
    show ?thesis
    proof (cases "k = i")
      case True
      with \<open>i < length xs \<and> sz + (length (xs ! i) + 1) < B\<close> show ?thesis by simp
    next
      case False
      with "1.prems" have "i + 1 \<le> k" by simp
      moreover from "1.prems" eq have "k < scan_batch B xs (i + 1) (sz + (length (xs ! i) + 1))" by simp
      ultimately show ?thesis
        using True "1.IH" [of "length (xs ! i) + 1"] by simp
    qed
  next
    case False
    then have "scan_batch B xs i sz = i"
      by (subst scan_batch.simps) (auto simp: Let_def)
    with "1.prems" show ?thesis by simp
  qed
qed

lemma scan_batch_size:
  "i \<le> length xs \<Longrightarrow> sz < B \<Longrightarrow>
   sz + serialized (take (scan_batch B xs i sz - i) (drop i xs)) < B"
proof (induction B xs i sz rule: scan_batch.induct)
  case (1 B xs i sz)
  show ?case
  proof (cases "i < length xs \<and> sz + (length (xs ! i) + 1) < B")
    case True
    let ?s = "length (xs ! i) + 1"
    from True have eq: "scan_batch B xs i sz = scan_batch B xs (i + 1) (sz + ?s)"
      by (subst scan_batch.simps) simp
    have ge: "i + 1 \<le> scan_batch B xs (i + 1) (sz + ?s)"
      using True scan_batch_bounds [of "i + 1" xs B "sz + ?s"] by simp
    have ih: "sz + ?s + serialized (take (scan_batch B xs (i + 1) (sz + ?s) - (i + 1)) (drop (i + 1) xs)) < B"
      using True "1.IH" [of ?s] by simp
    have dr: "drop i xs = xs ! i # drop (i + 1) xs"
      using True by (simp add: Cons_nth_drop_Suc)
    have "scan_batch B xs (i + 1) (sz + ?s) - i = Suc (scan_batch B xs (i + 1) (sz + ?s) - (i + 1))"
      using ge by simp
    then have "serialized (take (scan_batch B xs i sz - i) (drop i xs))
        = ?s + serialized (take (scan_batch B xs (i + 1) (sz + ?s) - (i + 1)) (drop (i + 1) xs))"
      by (simp add: eq dr serialized_def)
    with ih show ?thesis by simp
  next
    case False
    then have "scan_batch B xs i sz = i"
      by (subst scan_batch.simps) (auto simp: Let_def)
    with "1.prems" show ?thesis by (simp add: serialized_def)
  qed
qed

lemma scan_batch_progress:
  "xs \<noteq> [] \<Longrightarrow> length (hd xs) + 1 < B \<Longrightarrow> 0 < scan_batch B xs 0 0"
proof -
  assume a: "xs \<noteq> []" "length (hd xs) + 1 < B"
  then have "0 < length xs \<and> 0 + (length (xs ! 0) + 1) < B"
    by (cases xs) simp_all
  then have "scan_batch B xs 0 0 = scan_batch B xs (0 + 1) (0 + (length (xs ! 0) + 1))"
    by (subst scan_batch.simps) simp
  moreover have "0 + 1 \<le> scan_batch B xs (0 + 1) (0 + (length (xs ! 0) + 1))"
    using a scan_batch_bounds [of "0 + 1" xs B] by (cases xs) simp_all
  ultimately show ?thesis by simp
qed

lemma scan_batch_stuck:
  "xs \<noteq> [] \<Longrightarrow> \<not> length (hd xs) + 1 < B \<Longrightarrow> scan_batch B xs 0 0 = 0"
  by (subst scan_batch.simps) (cases xs, simp_all)

lemma batch_loop_returns_fit:
  assumes "batch_loop B0 xs0 acc0 = Some r0"
  shows "\<forall>x\<in>set xs0. length x + 1 < B0"
proof (rule batch_loop.raw_induct
    [where P = "\<lambda>B xs acc r. \<forall>x\<in>set xs. length x + 1 < B", OF _ assms])
  fix loop :: "nat \<Rightarrow> string list \<Rightarrow> string list list \<Rightarrow> string list list option"
  fix B xs acc r
  assume IH: "\<And>B xs acc r. loop B xs acc = Some r \<Longrightarrow> \<forall>x\<in>set xs. length x + 1 < B"
  assume eq: "(if length xs \<noteq> 0
      then let i = scan_batch B xs 0 0; batch = take i xs; rest = drop i xs
           in loop B rest (acc @ [batch])
      else Some acc) = Some r"
  show "\<forall>x\<in>set xs. length x + 1 < B"
  proof (cases "xs = []")
    case True
    then show ?thesis by simp
  next
    case False
    let ?i = "scan_batch B xs 0 0"
    from False eq have "loop B (drop ?i xs) (acc @ [take ?i xs]) = Some r"
      by (simp add: Let_def)
    then have rest: "\<forall>x\<in>set (drop ?i xs). length x + 1 < B"
      by (rule IH)
    have le: "?i \<le> length xs"
      using scan_batch_bounds [of 0 xs B 0] by simp
    have "\<forall>x\<in>set (take ?i xs). length x + 1 < B"
    proof
      fix x assume "x \<in> set (take ?i xs)"
      then obtain k where "k < ?i" "x = take ?i xs ! k"
        using le by (auto simp: in_set_conv_nth)
      then show "length x + 1 < B"
        using scan_batch_fits [of 0 k B xs 0] by simp
    qed
    moreover have "set xs = set (take ?i xs) \<union> set (drop ?i xs)"
      by (metis append_take_drop_id set_append)
    ultimately show ?thesis using rest by blast
  qed
qed

lemma batch_loop_total:
  "\<forall>x\<in>set xs. length x + 1 < B \<Longrightarrow>
   \<exists>bs. batch_loop B xs acc = Some (acc @ bs) \<and> concat bs = xs
      \<and> (\<forall>b\<in>set bs. b \<noteq> [] \<and> serialized b < B)"
proof (induction xs arbitrary: acc rule: length_induct)
  case (1 xs)
  show ?case
  proof (cases "xs = []")
    case True
    then have "batch_loop B xs acc = Some (acc @ [])"
      by (subst batch_loop.simps) simp
    with True show ?thesis by auto
  next
    case False
    let ?i = "scan_batch B xs 0 0"
    from False "1.prems" have fit: "length (hd xs) + 1 < B" by (cases xs) simp_all
    with False have pos: "0 < ?i" by (rule scan_batch_progress)
    have le: "?i \<le> length xs"
      using scan_batch_bounds [of 0 xs B 0] by simp
    have shorter: "length (drop ?i xs) < length xs"
      using pos False by simp
    have "\<forall>x\<in>set (drop ?i xs). length x + 1 < B"
      using "1.prems" by (meson in_set_dropD)
    with "1.IH" shorter obtain bs where
      bs: "batch_loop B (drop ?i xs) ((acc @ [take ?i xs])) = Some ((acc @ [take ?i xs]) @ bs)"
        "concat bs = drop ?i xs" "\<forall>b\<in>set bs. b \<noteq> [] \<and> serialized b < B"
      by blast
    have step: "batch_loop B xs acc = batch_loop B (drop ?i xs) (acc @ [take ?i xs])"
      using False by (subst batch_loop.simps) (simp add: Let_def)
    have sz: "serialized (take ?i xs) < B"
      using scan_batch_size [of 0 xs 0 B] fit by simp
    have ne: "take ?i xs \<noteq> []"
      using pos False by simp
    have "batch_loop B xs acc = Some (acc @ (take ?i xs # bs))"
      using step bs(1) by simp
    moreover have "concat (take ?i xs # bs) = xs"
      using bs(2) by simp
    moreover have "\<forall>b\<in>set (take ?i xs # bs). b \<noteq> [] \<and> serialized b < B"
      using bs(3) sz ne by simp
    ultimately show ?thesis by blast
  qed
qed

text \<open>
  C1. The claim: for every list of items and bound, the batching loop partitions the list
  into batches whose concatenation is the list, each batch's serialized size stays under
  the bound, and a single item whose serialized size is not under the bound occupies its own
  batch alone. The loop has no case for such an item. An item of 29999 characters has
  serialized size 30000, which is not under 30000: the inner loop stops at index 0, the
  batch is empty, the list is unchanged, and the outer loop never ends; the item reaches no
  batch.
\<close>

theorem check_batches_overlong_item_never_batched:
  "scan_batch 30000 [replicate 29999 (CHR ''a'')] 0 0 = 0
   \<and> check_batches [replicate 29999 (CHR ''a'')] = None"
proof
  show "scan_batch 30000 [replicate 29999 (CHR ''a'')] 0 0 = 0"
    by (rule scan_batch_stuck) simp_all
next
  show "check_batches [replicate 29999 (CHR ''a'')] = None"
  proof (cases "check_batches [replicate 29999 (CHR ''a'')]")
    case None
    then show ?thesis .
  next
    case (Some r)
    then have "batch_loop 30000 [replicate 29999 (CHR ''a'')] [] = Some r"
      by (simp add: check_batches_def)
    then have "\<forall>x\<in>set [replicate 29999 (CHR ''a'')]. length x + 1 < (30000::nat)"
      by (rule batch_loop_returns_fit)
    then show ?thesis by simp
  qed
qed

text \<open>
  C1 as the code has it: when the serialized size of every item is under the bound, as it
  is for the file names that \<open>os.walk\<close> yields and the bound 30000 of \<open>check\<close>, the loop
  ends, the batches it made are all non-empty, their concatenation in order is the list, and
  the serialized size of each batch is under the bound.
\<close>

theorem batch_loop_partitions_fitting_items:
  assumes "\<forall>item\<in>set javafilelist. length item + 1 < maxBytes"
  shows "\<exists>batches. batch_loop maxBytes javafilelist [] = Some batches
     \<and> (maxBytes = 30000 \<longrightarrow> check_batches javafilelist = Some batches)
     \<and> concat batches = javafilelist
     \<and> (\<forall>batch\<in>set batches. batch \<noteq> [] \<and> serialized batch < maxBytes)"
proof -
  from batch_loop_total [OF assms, of "[]"] obtain bs where
    bs: "batch_loop maxBytes javafilelist [] = Some bs" "concat bs = javafilelist"
      "\<forall>b\<in>set bs. b \<noteq> [] \<and> serialized b < maxBytes"
    by auto
  from bs(1) have "maxBytes = 30000 \<longrightarrow> check_batches javafilelist = Some bs"
    by (auto simp: check_batches_def)
  with bs show ?thesis by blast
qed

theorem batch_loop_partitions_fitting_items_witness:
  "\<exists>batches. check_batches [''src/A.java'', ''src/B.java'', ''src/C.java''] = Some batches
     \<and> concat batches = [''src/A.java'', ''src/B.java'', ''src/C.java'']
     \<and> list_all (\<lambda>batch. batch \<noteq> [] \<and> serialized batch < 30000) batches"
proof -
  have fit: "\<forall>item\<in>set [''src/A.java'', ''src/B.java'', ''src/C.java''].
      length item + 1 < (30000::nat)"
    by simp
  from batch_loop_partitions_fitting_items [OF fit] obtain batches where
    "check_batches [''src/A.java'', ''src/B.java'', ''src/C.java''] = Some batches"
    "concat batches = [''src/A.java'', ''src/B.java'', ''src/C.java'']"
    "\<forall>batch\<in>set batches. batch \<noteq> [] \<and> serialized batch < 30000"
    by auto
  then show ?thesis by (auto simp: list_all_iff)
qed

section \<open>Properties of \<open>Env.run\<close> and \<open>Env.download\<close>\<close>

lemmas eval_defs =
  download_def ensure_dir_def dirname_def exists_def attempt_def startswith_def
  partition_str_def stream_read_def write_file_def read_file_def log_def java_download_def
  helper_stale_def path_join_def check_call_def check_output_def run_def abort_def
  example_world_def example_env_def Let_def

text \<open>
  With \<open>nonZeroIsFatal\<close> set, \<open>run\<close> returns to its caller only when the child exited
  with status 0.
\<close>

lemma run_fatal_returns_zero:
  "run w args True s = (Inr retcode, s') \<Longrightarrow> retcode = 0"
  by (auto simp: run_def Let_def split: proc.splits if_splits)

text \<open>
  The archive branch of \<open>download\<close> reads the response twice: the first \<open>f.read()\<close>
  takes the whole body, the second one, whose result goes to \<open>ZipFile\<close>, finds the stream
  at its end. Where \<open>ZipFile\<close> rejects the empty string, no archive-qualified locator is
  ever fetched.
\<close>

lemma archive_attempt_never_succeeds:
  assumes "ZipFile w [] = Inl (BadZipfile e)"
    and "startswith url ''zip:'' \<or> startswith url ''jar:''"
  shows "fst (attempt w path url s) \<noteq> Inr ()"
  using assms
  by (auto simp: attempt_def Let_def stream_read_def split: option.splits prod.splits sum.splits)

text \<open>
  C2. The claim: when an unreachable plain URL is followed by a reachable archive-qualified
  locator, \<open>download\<close> succeeds and the destination holds exactly the bytes of the named
  entry. In the example world \<open>http://good/libs.zip\<close> is reachable and its archive has the
  entry \<open>x.jar\<close>; still the archive locator fails with \<open>BadZipfile\<close> (the archive is
  parsed from the second, empty read), the destination is not written, and the fetch ends in
  the helper process, whose exit status 1 aborts the program.
\<close>

theorem download_archive_entry_not_extracted:
  "urlopen example_world ''http://good/libs.zip'' = Inr ''PK-libs''
   \<and> map_sum id (\<lambda>zf. zf ''x.jar'') (ZipFile example_world ''PK-libs'') = Inr (Some ''JARBYTES'')
   \<and> fst (download example_world ''lib/x.jar''
            [''http://bad/x.jar'', ''zip:http://good/libs.zip!/x.jar''] example_env)
       = Inl (SystemExit (Code 1))
   \<and> files (snd (download example_world ''lib/x.jar''
            [''http://bad/x.jar'', ''zip:http://good/libs.zip!/x.jar''] example_env)) ''lib/x.jar''
       = None
   \<and> console (snd (download example_world ''lib/x.jar''
            [''http://bad/x.jar'', ''zip:http://good/libs.zip!/x.jar''] example_env))
       = [''Downloading http://bad/x.jar to lib/x.jar'',
          ''Error reading from http://bad/x.jar: <urlopen error>'',
          ''Downloading zip:http://good/libs.zip!/x.jar to lib/x.jar'',
          ''Error in zip file downloaded from http://good/libs.zip: File is not a zip file'']"
  by (simp add: eval_defs)

text \<open>
  C3. The claim: when every listed URL fails and the helper process exits nonzero,
  \<open>download\<close> aborts with a message that lists the URLs and asks for a manual download.
  The helper is started through \<open>run\<close> with \<open>nonZeroIsFatal\<close> left at its default, so its
  nonzero status already aborts inside \<open>run\<close>, with the bare status and no message
  (\<open>run_fatal_returns_zero\<close>: the test \<open>!= 0\<close> after the call never sees a nonzero value).
\<close>

theorem download_all_fail_aborts_without_message:
  "fst (download example_world ''lib/x.jar'' [''http://bad/x.jar''] example_env)
     = Inl (SystemExit (Code 1))
   \<and> console (snd (download example_world ''lib/x.jar'' [''http://bad/x.jar''] example_env))
     = [''Downloading http://bad/x.jar to lib/x.jar'',
        ''Error reading from http://bad/x.jar: <urlopen error>'']
   \<and> last (procs (snd (download example_world ''lib/x.jar'' [''http://bad/x.jar''] example_env)))
     = Via_call [''/jdk/bin/java'', ''-cp'', ''/mx'', ''URLConnectionDownload'', ''lib/x.jar'',
                 ''http://bad/x.jar'']"
  by (simp add: eval_defs)

text \<open>
  What \<open>run\<close> does when the child starts and exits with a nonzero status.
\<close>

lemma run_nonzero_exit:
  assumes "args \<noteq> []" and "subprocess w args = Exited N output" and "N \<noteq> 0"
  shows "fst (run w args False s) = Inr N
     \<and> fst (run w args True s)
         = (if verbose s then Inl (CalledProcessError N [join_str '' '' args] None)
            else Inl (SystemExit (Code N)))"
  using assms by (simp add: run_def Let_def abort_def)

text \<open>
  C4. The claim, which is also what the docstring of \<open>run\<close> says: when the child starts
  and exits with a nonzero code \<open>N\<close>, \<open>run\<close> with \<open>nonZeroIsFatal\<close> set terminates the
  program with exit status \<open>N\<close>, and with it unset returns \<open>N\<close>. With a child that exits
  with status 2: without \<open>nonZeroIsFatal\<close> the call returns 2, verbose or not; with it
  and \<open>verbose\<close> off the program ends with status 2; with it and \<open>verbose\<close> on, \<open>run\<close>
  raises \<open>CalledProcessError\<close> instead of calling \<open>abort\<close>, and the program ends with
  status 1.
\<close>

theorem run_verbose_fatal_exit_status_differs:
  "fst (run exit2_world [''sh'', ''-c'', ''exit 2''] False example_env) = Inr 2
   \<and> fst (run exit2_world [''sh'', ''-c'', ''exit 2''] False (example_env\<lparr>verbose := True\<rparr>))
       = Inr 2
   \<and> map_sum exit_status id (fst (run exit2_world [''sh'', ''-c'', ''exit 2''] True example_env))
       = Inl 2
   \<and> fst (run exit2_world [''sh'', ''-c'', ''exit 2''] True (example_env\<lparr>verbose := True\<rparr>))
       = Inl (CalledProcessError 2 [''sh -c exit 2''] None)
   \<and> map_sum exit_status id
         (fst (run exit2_world [''sh'', ''-c'', ''exit 2''] True (example_env\<lparr>verbose := True\<rparr>)))
       = Inl 1"
  by (simp add: exit2_world_def exit_status_def eval_defs)

subsection \<open>One iteration of the download loop\<close>

lemma attempt_eq:
  "attempt w path url s =
     (case fetch w url of
        (Inl e, url1) \<Rightarrow> (Inl e, url1, log (''Downloading '' @ url @ '' to '' @ path) s)
      | (Inr data, url1) \<Rightarrow>
          (case write_file w path data (log (''Downloading '' @ url @ '' to '' @ path) s) of
             Inl e \<Rightarrow> (Inl e, url1, log (''Downloading '' @ url @ '' to '' @ path) s)
           | Inr s2 \<Rightarrow> (Inr (), url1, s2)))"
  unfolding attempt_def fetch_def Let_def
  by (simp add: stream_read_def split: option.split prod.split sum.split)



lemma attempt_failed_state:
  assumes "fst (attempt w path url s) = Inl e"
  shows "snd (snd (attempt w path url s)) = log (''Downloading '' @ url @ '' to '' @ path) s"
proof -
  let ?s1 = "log (''Downloading '' @ url @ '' to '' @ path) s"
  obtain r u1 where f: "fetch w url = (r, u1)" by (cases "fetch w url")
  show ?thesis
  proof (cases r)
    case (Inl x)
    then show ?thesis by (simp add: attempt_eq f)
  next
    case (Inr data)
    show ?thesis
    proof (cases "write_file w path data ?s1")
      case (Inl x)
      then show ?thesis by (simp add: attempt_eq f Inr)
    next
      case (Inr s2)
      with assms \<open>r = Inr data\<close> show ?thesis by (simp add: attempt_eq f)
    qed
  qed
qed

lemma write_file_state:
  "write_file w path data s = Inr s2 \<Longrightarrow>
   s2 = s\<lparr>files := (files s)(path \<mapsto> data), writes := writes s @ [(path, data)]\<rparr>"
  by (simp add: write_file_def split: option.splits if_splits)


lemma download_loop_IOError_step:
  assumes "fst (attempt w path url s) = Inl (IOError e)"
  shows "download_loop w path (url # urls) s =
         download_loop w path urls
           (s\<lparr>console := console s @ [''Downloading '' @ url @ '' to '' @ path,
               ''Error reading from '' @ fst (snd (attempt w path url s)) @ '': '' @ e]\<rparr>)"
proof -
  obtain r u1 s1 where a: "attempt w path url s = (r, u1, s1)"
    by (cases "attempt w path url s") auto
  with assms have r: "r = Inl (IOError e)" by simp
  from attempt_failed_state [OF assms] a
  have s1: "s1 = log (''Downloading '' @ url @ '' to '' @ path) s" by simp
  show ?thesis by (simp add: a r s1 log_def)
qed

lemma download_loop_BadZipfile_step:
  assumes "fst (attempt w path url s) = Inl (BadZipfile e)"
  shows "download_loop w path (url # urls) s =
         download_loop w path urls
           (s\<lparr>console := console s @ [''Downloading '' @ url @ '' to '' @ path,
               ''Error in zip file downloaded from '' @ fst (snd (attempt w path url s))
                 @ '': '' @ e]\<rparr>)"
proof -
  obtain r u1 s1 where a: "attempt w path url s = (r, u1, s1)"
    by (cases "attempt w path url s") auto
  with assms have r: "r = Inl (BadZipfile e)" by simp
  from attempt_failed_state [OF assms] a
  have s1: "s1 = log (''Downloading '' @ url @ '' to '' @ path) s" by simp
  show ?thesis by (simp add: a r s1 log_def)
qed

lemma recoverable_cases:
  "recoverable r \<Longrightarrow> (\<exists>e. r = Inl (IOError e)) \<or> (\<exists>e. r = Inl (BadZipfile e))"
  by (auto simp: recoverable_def split: sum.splits exn.splits)

lemma download_loop_failed_step:
  assumes "recoverable (fst (attempt w path p s))"
  shows "\<exists>l1 l2. \<forall>urls. download_loop w path (p # urls) s
           = download_loop w path urls (s\<lparr>console := console s @ [l1, l2]\<rparr>)"
proof -
  from recoverable_cases [OF assms] show ?thesis
  proof
    assume "\<exists>e. fst (attempt w path p s) = Inl (IOError e)"
    then obtain e where "fst (attempt w path p s) = Inl (IOError e)" ..
    from download_loop_IOError_step [OF this] show ?thesis by blast
  next
    assume "\<exists>e. fst (attempt w path p s) = Inl (BadZipfile e)"
    then obtain e where "fst (attempt w path p s) = Inl (BadZipfile e)" ..
    from download_loop_BadZipfile_step [OF this] show ?thesis by blast
  qed
qed

lemma download_loop_skips_failed:
  assumes "\<forall>p\<in>set pre. \<forall>t. dirs t = D \<longrightarrow> recoverable (fst (attempt w path p t))"
    and "dirs s = D"
  shows "\<exists>lines. length lines = 2 * length pre
           \<and> (\<forall>rest. download_loop w path (pre @ rest) s
                = download_loop w path rest (s\<lparr>console := console s @ lines\<rparr>))"
  using assms
proof (induction pre arbitrary: s)
  case Nil
  have "\<forall>rest. download_loop w path ([] @ rest) s
      = download_loop w path rest (s\<lparr>console := console s @ []\<rparr>)" by simp
  then show ?case by (intro exI [of _ "[]"]) simp
next
  case (Cons p pre)
  from Cons.prems have "recoverable (fst (attempt w path p s))" by simp
  from download_loop_failed_step [OF this] obtain l1 l2 where step:
    "\<And>urls. download_loop w path (p # urls) s
       = download_loop w path urls (s\<lparr>console := console s @ [l1, l2]\<rparr>)"
    by blast
  from Cons.prems
  have "\<forall>q\<in>set pre. \<forall>t. dirs t = D \<longrightarrow> recoverable (fst (attempt w path q t))" by simp
  moreover from Cons.prems have "dirs (s\<lparr>console := console s @ [l1, l2]\<rparr>) = D" by simp
  ultimately obtain lines where lines: "length lines = 2 * length pre"
    "\<And>rest. download_loop w path (pre @ rest) (s\<lparr>console := console s @ [l1, l2]\<rparr>)
       = download_loop w path rest (s\<lparr>console := console s @ [l1, l2] @ lines\<rparr>)"
    using Cons.IH [of "s\<lparr>console := console s @ [l1, l2]\<rparr>"] by auto
  have "\<forall>rest. download_loop w path ((p # pre) @ rest) s
      = download_loop w path rest (s\<lparr>console := console s @ ([l1, l2] @ lines)\<rparr>)"
    unfolding append_Cons step lines(2) by simp
  moreover have "length ([l1, l2] @ lines) = 2 * length (p # pre)"
    using lines(1) by simp
  ultimately show ?case by blast
qed

lemma ensure_dir_state:
  assumes "ensure_dir w path s = Inr s0"
  shows "\<exists>ds. s0 = s\<lparr>dirs := ds\<rparr>"
proof (cases "dirname path \<noteq> [] \<and> \<not> exists s (dirname path)")
  case True
  with assms show ?thesis
    by (auto simp: ensure_dir_def Let_def split: sum.splits)
next
  case False
  with assms have "s0 = s" by (auto simp: ensure_dir_def Let_def)
  then have "s0 = s\<lparr>dirs := dirs s\<rparr>" by simp
  then show ?thesis ..
qed

lemma ensure_dir_fields:
  assumes "ensure_dir w path s = Inr s0"
  shows "console s0 = console s" and "files s0 = files s" and "writes s0 = writes s"
    and "procs s0 = procs s"
  using ensure_dir_state [OF assms] by auto


lemma attempt_no_separator:
  assumes "startswith url ''zip:'' \<or> startswith url ''jar:''"
    and "find_sub url ''!/'' = None"
  shows "attempt w path url s =
    (Inl (SystemExit (Message (''Zip or jar URL does not contain \"!/\": '' @ url))), url,
     s\<lparr>console := console s @ [''Downloading '' @ url @ '' to '' @ path]\<rparr>)"
proof -
  from assms(1) have c: "(startswith url ''zip:'' \<or> startswith url ''jar:'') = True"
    by simp
  show ?thesis
    unfolding attempt_def Let_def c by (simp add: assms(2) abort_def log_def)
qed

lemma example_ensure_dir:
  "ensure_dir example_world ''lib/x.jar'' example_env = Inr (example_env\<lparr>dirs := {''lib''}\<rparr>)"
  by (simp add: ensure_dir_def dirname_def exists_def example_world_def example_env_def)

lemma example_bad_url:
  "dirs t = {''lib''} \<Longrightarrow>
   attempt example_world ''lib/x.jar'' ''http://bad/x.jar'' t
     = (Inl (IOError ''<urlopen error>''), ''http://bad/x.jar'',
        log ''Downloading http://bad/x.jar to lib/x.jar'' t)"
  by (simp add: attempt_eq fetch_def startswith_def example_world_def)






text \<open>
  C10. A locator that starts with \<open>zip:\<close> or \<open>jar:\<close> and has no \<open>!/\<close> aborts the program
  at once: \<open>SystemExit\<close> is not caught by the handlers of the loop. Reached after locators
  that failed recoverably, it ends \<open>download\<close> with the message naming the locator; the last
  line printed is its \<open>Downloading\<close> line (no error line, no later locator), and no process
  was started (no helper).
\<close>

theorem download_aborts_at_archive_locator_without_separator:
  assumes fails: "\<forall>p\<in>set pre. \<forall>t. dirs t = dirs s0 \<longrightarrow>
                   recoverable (fst (attempt w path p t))"
    and arch: "startswith url ''zip:'' \<or> startswith url ''jar:''"
    and nosep: "find_sub url ''!/'' = None"
    and dir: "ensure_dir w path s = Inr s0"
  shows "\<exists>lines. length lines = 2 * length pre
     \<and> download w path (pre @ url # post) s =
         (Inl (SystemExit (Message (''Zip or jar URL does not contain \"!/\": '' @ url))),
          s0\<lparr>console := console s @ lines @ [''Downloading '' @ url @ '' to '' @ path]\<rparr>)
     \<and> procs (snd (download w path (pre @ url # post) s)) = procs s"
proof -
  from download_loop_skips_failed [OF fails refl]
  obtain lines where len: "length lines = 2 * length pre"
    and skip: "\<And>rest. download_loop w path (pre @ rest) s0
       = download_loop w path rest (s0\<lparr>console := console s0 @ lines\<rparr>)"
    by blast
  have "download w path (pre @ url # post) s =
         (Inl (SystemExit (Message (''Zip or jar URL does not contain \"!/\": '' @ url))),
          s0\<lparr>console := console s @ lines @ [''Downloading '' @ url @ '' to '' @ path]\<rparr>)"
  proof -
    have "download_loop w path (url # post) (s0\<lparr>console := console s0 @ lines\<rparr>)
        = (Inl (SystemExit (Message (''Zip or jar URL does not contain \"!/\": '' @ url))),
           s0\<lparr>console := console s0 @ lines @ [''Downloading '' @ url @ '' to '' @ path]\<rparr>)"
      by (simp add: attempt_no_separator [OF arch nosep])
    then have "download_loop w path (pre @ url # post) s0
        = (Inl (SystemExit (Message (''Zip or jar URL does not contain \"!/\": '' @ url))),
           s0\<lparr>console := console s0 @ lines @ [''Downloading '' @ url @ '' to '' @ path]\<rparr>)"
      unfolding skip .
    then show ?thesis
      by (simp add: download_def dir ensure_dir_fields [OF dir])
  qed
  moreover from this have "procs (snd (download w path (pre @ url # post) s)) = procs s"
    by (simp add: ensure_dir_fields [OF dir])
  ultimately show ?thesis using len by blast
qed


theorem download_aborts_at_archive_locator_without_separator_witness:
  "fst (download example_world ''lib/x.jar''
          ([''http://bad/x.jar''] @ ''jar:http://good/libs.zip'' # [''http://good/libs.zip''])
          example_env)
     = Inl (SystemExit (Message ''Zip or jar URL does not contain \"!/\": jar:http://good/libs.zip''))
   \<and> procs (snd (download example_world ''lib/x.jar''
          ([''http://bad/x.jar''] @ ''jar:http://good/libs.zip'' # [''http://good/libs.zip''])
          example_env)) = []"
proof -
  let ?s0 = "example_env\<lparr>dirs := {''lib''}\<rparr>"
  have fails: "\<forall>p\<in>set [''http://bad/x.jar''].
      \<forall>t. dirs t = dirs ?s0 \<longrightarrow> recoverable (fst (attempt example_world ''lib/x.jar'' p t))"
    by (simp add: example_bad_url recoverable_def)
  have arch: "startswith ''jar:http://good/libs.zip'' ''zip:''
      \<or> startswith ''jar:http://good/libs.zip'' ''jar:''"
    by (simp add: startswith_def)
  have nosep: "find_sub ''jar:http://good/libs.zip'' ''!/'' = None"
    by (simp add: startswith_def)
  from download_aborts_at_archive_locator_without_separator
    [OF fails arch nosep example_ensure_dir, of "[''http://good/libs.zip'']"]
  show ?thesis by (auto simp: example_env_def)
qed


section \<open>Properties of \<open>Env.update_file\<close>\<close>

lemma update_file_absent:
  assumes "files s path = None" "path \<notin> dirs s" "write_error w path = None"
  shows "update_file w path content s =
    (Inr True, s\<lparr>files := (files s)(path \<mapsto> content),
                   writes := writes s @ [(path, content)],
                   console := console s @ [''created '' @ path]\<rparr>)"
  using assms by (simp add: update_file_def exists_def write_file_def log_def)

lemma update_file_same:
  assumes "files s path = Some content" "read_error w path = None"
  shows "update_file w path content s = (Inr False, s)"
  using assms by (simp add: update_file_def exists_def read_file_def)

lemma update_file_differs:
  assumes "files s path = Some old" "old \<noteq> content" "path \<notin> dirs s"
    "read_error w path = None" "write_error w path = None"
  shows "update_file w path content s =
    (Inr True, s\<lparr>files := (files s)(path \<mapsto> content),
                   writes := writes s @ [(path, content)],
                   console := console s @ [''modified '' @ path]\<rparr>)"
  using assms by (simp add: update_file_def exists_def read_file_def write_file_def log_def)

lemma update_file_True_iff_write:
  "(fst (update_file w path content s) = Inr True)
     = (writes (snd (update_file w path content s)) = writes s @ [(path, content)])"
proof (cases "if exists s path then map_sum id Some (read_file w path s) else Inr None")
  case (Inl e)
  then show ?thesis
    by (cases e) (simp_all add: update_file_def Let_def)
next
  case (Inr old)
  show ?thesis
  proof (cases "old = Some content")
    case True
    with Inr show ?thesis by (simp add: update_file_def Let_def)
  next
    case False
    show ?thesis
    proof (cases "write_file w path content s")
      case (Inl e)
      with Inr False show ?thesis
        by (cases e) (simp_all add: update_file_def Let_def)
    next
      case (Inr s1)
      from write_file_state [OF this] Inr \<open>(if exists s path then map_sum id Some (read_file w path s) else Inr None) = Inr old\<close> False
      show ?thesis
        by (simp add: update_file_def Let_def log_def)
    qed
  qed
qed

lemma update_file_True_changes:
  assumes "fst (update_file w path content s) = Inr True"
  shows "files s path \<noteq> Some content"
proof
  assume same: "files s path = Some content"
  then have ex: "exists s path" by (simp add: exists_def)
  show False
  proof (cases "read_error w path")
    case None
    with same have "update_file w path content s = (Inr False, s)"
      by (simp add: update_file_same)
    with assms show False by simp
  next
    case (Some msg)
    with ex have "fst (update_file w path content s) =
        Inl (abort (Message (''Error while writing to '' @ path @ '': '' @ msg)))"
      by (simp add: update_file_def read_file_def)
    with assms show False by simp
  qed
qed

text \<open>
  C8. The claim: for every path and content, two calls in a row with the same content
  perform exactly one write, a later call with different content performs exactly one more,
  and \<open>update_file\<close> returns true exactly on the calls that write changed bytes. When the
  file already holds the content before the first call, neither call writes:
\<close>

theorem update_file_existing_identical_never_writes:
  "fst (update_file example_world ''a.txt'' ''hello''
          (example_env\<lparr>files := [''a.txt'' \<mapsto> ''hello'']\<rparr>)) = Inr False
   \<and> fst (update_file example_world ''a.txt'' ''hello''
          (snd (update_file example_world ''a.txt'' ''hello''
             (example_env\<lparr>files := [''a.txt'' \<mapsto> ''hello'']\<rparr>)))) = Inr False
   \<and> writes (snd (update_file example_world ''a.txt'' ''hello''
          (snd (update_file example_world ''a.txt'' ''hello''
             (example_env\<lparr>files := [''a.txt'' \<mapsto> ''hello'']\<rparr>))))) = []"
  by (simp add: update_file_def exists_def read_file_def example_world_def example_env_def)

text \<open>
  C8 as the code has it, for a path that can be read and written and is not a directory:
  the first call writes exactly when the file does not already hold the content (and then
  returns true), so that two calls in a row perform at most one write; the second call
  returns false and leaves the state as it is; a following call with different content
  performs exactly one write and returns true. Every call, in any state, returns true
  exactly when it performs a write, and the bytes it writes differ from what the file held.
\<close>

theorem update_file_writes_only_changes:
  assumes "read_error w path = None" and "write_error w path = None" and "path \<notin> dirs s"
    and "content2 \<noteq> content"
  shows "\<exists>s1 s3.
      update_file w path content s = (Inr (files s path \<noteq> Some content), s1)
    \<and> writes s1 = writes s @ (if files s path = Some content then [] else [(path, content)])
    \<and> files s1 path = Some content
    \<and> update_file w path content s1 = (Inr False, s1)
    \<and> update_file w path content2 s1 = (Inr True, s3)
    \<and> writes s3 = writes s1 @ [(path, content2)]
    \<and> files s3 path = Some content2
    \<and> (\<forall>c t. (fst (update_file w path c t) = Inr True)
               = (writes (snd (update_file w path c t)) = writes t @ [(path, c)]
                  \<and> files t path \<noteq> Some c))"
proof -
  define s1 where "s1 = snd (update_file w path content s)"
  have facts: "update_file w path content s = (Inr (files s path \<noteq> Some content), s1)
    \<and> writes s1 = writes s @ (if files s path = Some content then [] else [(path, content)])
    \<and> files s1 path = Some content \<and> path \<notin> dirs s1"
  proof (cases "files s path")
    case None
    from update_file_absent [OF None assms(3) assms(2), of content] None assms(3)
    show ?thesis by (simp add: s1_def)
  next
    case (Some old)
    show ?thesis
    proof (cases "old = content")
      case True
      with Some have "files s path = Some content" by simp
      from update_file_same [OF this assms(1)] this assms(3)
      show ?thesis by (simp add: s1_def)
    next
      case False
      from update_file_differs [OF Some False assms(3) assms(1) assms(2)] Some False assms(3)
      show ?thesis by (simp add: s1_def)
    qed
  qed
  then have first: "update_file w path content s = (Inr (files s path \<noteq> Some content), s1)"
    and w1: "writes s1 = writes s @ (if files s path = Some content then [] else [(path, content)])"
    and f1: "files s1 path = Some content" and d1: "path \<notin> dirs s1"
    by simp_all
  have second: "update_file w path content s1 = (Inr False, s1)"
    using f1 assms(1) by (rule update_file_same)
  from assms(4) have "content \<noteq> content2" by simp
  from update_file_differs [OF f1 this d1 assms(1) assms(2)]
  obtain s3 where third: "update_file w path content2 s1 = (Inr True, s3)"
    and w3: "writes s3 = writes s1 @ [(path, content2)]" and f3: "files s3 path = Some content2"
    by simp
  have "\<forall>c t. (fst (update_file w path c t) = Inr True)
               = (writes (snd (update_file w path c t)) = writes t @ [(path, c)]
                  \<and> files t path \<noteq> Some c)"
    using update_file_True_iff_write update_file_True_changes by blast
  with first w1 f1 second third w3 f3 show ?thesis by blast
qed

theorem update_file_writes_only_changes_witness:
  "\<exists>s1 s3.
      update_file example_world ''a.txt'' ''hello'' example_env = (Inr True, s1)
    \<and> writes s1 = [(''a.txt'', ''hello'')]
    \<and> update_file example_world ''a.txt'' ''hello'' s1 = (Inr False, s1)
    \<and> update_file example_world ''a.txt'' ''world'' s1 = (Inr True, s3)
    \<and> writes s3 = [(''a.txt'', ''hello''), (''a.txt'', ''world'')]"
proof -
  have r: "read_error example_world ''a.txt'' = None" by (simp add: example_world_def)
  have w: "write_error example_world ''a.txt'' = None" by (simp add: example_world_def)
  have d: "''a.txt'' \<notin> dirs example_env" by (simp add: example_env_def)
  have c: "''world'' \<noteq> ''hello''" by simp
  from update_file_writes_only_changes [OF r w d c]
  obtain s1 s3 where
    "update_file example_world ''a.txt'' ''hello'' example_env
       = (Inr (files example_env ''a.txt'' \<noteq> Some ''hello''), s1)"
    "writes s1 = writes example_env
       @ (if files example_env ''a.txt'' = Some ''hello'' then [] else [(''a.txt'', ''hello'')])"
    "update_file example_world ''a.txt'' ''hello'' s1 = (Inr False, s1)"
    "update_file example_world ''a.txt'' ''world'' s1 = (Inr True, s3)"
    "writes s3 = writes s1 @ [(''a.txt'', ''world'')]"
    by blast
  then show ?thesis by (intro exI [of _ s1] exI [of _ s3]) (simp add: example_env_def)
qed


section \<open>Properties of \<open>Env.init_java\<close>\<close>

lemma check_outputs_append [simp]:
  "check_outputs (ps @ qs) = check_outputs ps @ check_outputs qs"
  by (simp add: check_outputs_def)

lemma check_outputs_simps [simp]:
  "check_outputs [] = []"
  "check_outputs (Via_check_output cmd # ps) = cmd # check_outputs ps"
  "check_outputs (Via_call cmd # ps) = check_outputs ps"
  "check_outputs (Via_check_call cmd # ps) = check_outputs ps"
  by (simp_all add: check_outputs_def)

lemma check_output_state:
  "snd (check_output w cmd s) = s\<lparr>procs := procs s @ [Via_check_output cmd]\<rparr>"
  by (simp add: check_output_def Let_def split: proc.splits)

lemma run_state:
  "run w args fatal s = (r, s1) \<Longrightarrow>
   validated s1 = validated s \<and> check_outputs (procs s1) = check_outputs (procs s)"
  by (auto simp: run_def Let_def log_def validated_def split: proc.splits if_splits)

lemma split_args_state:
  assumes "split_args w s = (r, s1)"
  shows "procs s1 = procs s" and "java s1 = java s"
    and "java_initialized s1 = java_initialized s" and "console s1 = console s"
  using assms
  by (auto simp: split_args_def Let_def split: jargs.splits sum.splits)

lemma probe_java_state:
  assumes "probe_java w s = (r, s1)"
  shows "java s1 = java s \<and> java_initialized s1 = java_initialized s
    \<and> (check_outputs (procs s1) = check_outputs (procs s) @ [[java s, ''-d64'', ''-version'']]
       \<or> check_outputs (procs s1) = check_outputs (procs s)
            @ [[java s, ''-d64'', ''-version''], [java s, ''-version'']])"
proof -
  let ?d64 = "[java s, ''-d64'', ''-version'']"
  let ?s1 = "s\<lparr>procs := procs s @ [Via_check_output ?d64]\<rparr>"
  obtain r1 where c1: "check_output w ?d64 s = (r1, ?s1)"
    using check_output_state [of w ?d64 s] by (cases "check_output w ?d64 s") simp
  let ?plain = "[java s, ''-version'']"
  let ?s2 = "?s1\<lparr>procs := procs ?s1 @ [Via_check_output ?plain]\<rparr>"
  obtain r2 where c2: "check_output w ?plain ?s1 = (r2, ?s2)"
    using check_output_state [of w ?plain ?s1] by (cases "check_output w ?plain ?s1") simp
  show ?thesis
  proof (cases r1)
    case (Inr outp)
    with assms c1 show ?thesis
      by (auto simp: probe_java_def split: jargs.splits)
  next
    case (Inl e)
    show ?thesis
    proof (cases "\<exists>rc cmd out. e = CalledProcessError rc cmd out")
      case False
      with assms c1 Inl show ?thesis
        by (cases e) (auto simp: probe_java_def)
    next
      case True
      then obtain rc cmd out where e: "e = CalledProcessError rc cmd out" by blast
      show ?thesis
      proof (cases r2)
        case (Inr outp)
        with assms c1 c2 Inl e show ?thesis
          by (auto simp: probe_java_def)
      next
        case (Inl e2)
        with assms c1 c2 \<open>r1 = Inl e\<close> e show ?thesis
          by (cases e2) (auto simp: probe_java_def)
      qed
    qed
  qed
qed


lemma init_java_initialized:
  "java_initialized s \<Longrightarrow> init_java w s = (Inr (), s)"
  by (simp add: init_java_def)

lemma init_java_state:
  assumes "\<not> java_initialized s" and "init_java w s = (r, s1)"
  shows "java s1 = java s
    \<and> (r = Inr () \<longrightarrow> java_initialized s1)
    \<and> (check_outputs (procs s1) = check_outputs (procs s)
       \<or> check_outputs (procs s1) = check_outputs (procs s) @ [[java s, ''-d64'', ''-version'']]
       \<or> check_outputs (procs s1) = check_outputs (procs s)
            @ [[java s, ''-d64'', ''-version''], [java s, ''-version'']])
    \<and> (r = Inr () \<longrightarrow> check_outputs (procs s1) \<noteq> check_outputs (procs s))"
proof -
  obtain ra sa where sa: "split_args w s = (ra, sa)" by (cases "split_args w s")
  note a = split_args_state [OF sa]
  show ?thesis
  proof (cases ra)
    case (Inl e)
    with assms sa a show ?thesis by (auto simp: init_java_def)
  next
    case (Inr u)
    obtain rp sp where sp: "probe_java w sa = (rp, sp)" by (cases "probe_java w sa")
    from probe_java_state [OF sp] a
    have p: "java sp = java s" "java_initialized sp = java_initialized s"
      "check_outputs (procs sp) = check_outputs (procs s) @ [[java s, ''-d64'', ''-version'']]
       \<or> check_outputs (procs sp) = check_outputs (procs s)
            @ [[java s, ''-d64'', ''-version''], [java s, ''-version'']]"
      by simp_all
    show ?thesis
    proof (cases rp)
      case (Inl e)
      with assms sa sp \<open>ra = Inr u\<close> p show ?thesis by (auto simp: init_java_def)
    next
      case (Inr outp)
      show ?thesis
      proof (cases "check_version outp")
        case (Inl e)
        with assms sa sp \<open>ra = Inr u\<close> \<open>rp = Inr outp\<close> p show ?thesis
          by (auto simp: init_java_def)
      next
        case (Inr version)
        with assms sa sp \<open>ra = Inr u\<close> \<open>rp = Inr outp\<close> p show ?thesis
          by (auto simp: init_java_def split: if_splits jargs.splits)
      qed
    qed
  qed
qed


lemma do_call_initialized:
  assumes "java_initialized s" and "do_call w c s = (r, s1)"
  shows "validated s1 = validated s \<and> check_outputs (procs s1) = check_outputs (procs s)"
proof (cases c)
  case (Format_java_cmd args)
  with assms show ?thesis
    by (auto simp: format_java_cmd_def init_java_initialized split: jargs.splits)
next
  case (Run_java args fatal)
  show ?thesis
  proof (cases "java_args s")
    case (Raw x)
    with assms Run_java show ?thesis
      by (auto simp: run_java_def format_java_cmd_def init_java_initialized)
  next
    case (Tokens ts)
    let ?cmd = "[java s] @ java_args_pfx s @ ts @ java_args_sfx s @ args"
    obtain rr sr where rr: "run w ?cmd fatal s = (rr, sr)" by (cases "run w ?cmd fatal s")
    from run_state [OF rr] rr assms Run_java Tokens show ?thesis
      by (auto simp: run_java_def format_java_cmd_def init_java_initialized split: sum.splits)
  qed
qed

lemma do_calls_initialized:
  "java_initialized s \<Longrightarrow> do_calls w cs s = (r, s') \<Longrightarrow>
   validated s' = validated s \<and> check_outputs (procs s') = check_outputs (procs s)"
proof (induction cs arbitrary: s)
  case Nil
  then show ?case by simp
next
  case (Cons c cs)
  obtain rc s1 where c: "do_call w c s = (rc, s1)" by (cases "do_call w c s")
  from do_call_initialized [OF Cons.prems(1) c]
  have same: "validated s1 = validated s" "check_outputs (procs s1) = check_outputs (procs s)"
    by simp_all
  show ?case
  proof (cases rc)
    case (Inl e)
    with Cons.prems c same show ?thesis by auto
  next
    case (Inr u)
    from same(1) Cons.prems(1) have "java_initialized s1" by (simp add: validated_def)
    moreover from Cons.prems(2) c Inr have "do_calls w cs s1 = (r, s')" by simp
    ultimately have "validated s' = validated s1
        \<and> check_outputs (procs s') = check_outputs (procs s1)"
      by (rule Cons.IH)
    with same show ?thesis by simp
  qed
qed

lemma do_call_first:
  assumes "\<not> java_initialized s" and "do_call w c s = (r, s1)"
  shows "java s1 = java s
    \<and> (r = Inr () \<longrightarrow> java_initialized s1)
    \<and> (r = Inr () \<longrightarrow> (\<exists>ts. java_args s1 = Tokens ts))
    \<and> (check_outputs (procs s1) = check_outputs (procs s)
       \<or> check_outputs (procs s1) = check_outputs (procs s) @ [[java s, ''-d64'', ''-version'']]
       \<or> check_outputs (procs s1) = check_outputs (procs s)
            @ [[java s, ''-d64'', ''-version''], [java s, ''-version'']])
    \<and> (r = Inr () \<longrightarrow> check_outputs (procs s1) \<noteq> check_outputs (procs s))"
proof -
  obtain ri si where i: "init_java w s = (ri, si)" by (cases "init_java w s")
  note st = init_java_state [OF assms(1) i]
  show ?thesis
  proof (cases ri)
    case (Inl e)
    with assms i st show ?thesis
      by (cases c) (auto simp: format_java_cmd_def run_java_def)
  next
    case (Inr u)
    with st have ini: "java_initialized si" by simp
    show ?thesis
    proof (cases c)
      case (Format_java_cmd args)
      with assms i st Inr show ?thesis
        by (auto simp: format_java_cmd_def split: jargs.splits)
    next
      case (Run_java args fatal)
      show ?thesis
      proof (cases "java_args si")
        case (Raw x)
        with assms i st Inr Run_java show ?thesis
          by (auto simp: run_java_def format_java_cmd_def)
      next
        case (Tokens ts)
        let ?cmd = "[java si] @ java_args_pfx si @ ts @ java_args_sfx si @ args"
        obtain rr sr where rr: "run w ?cmd fatal si = (rr, sr)"
          by (cases "run w ?cmd fatal si")
        from run_state [OF rr]
        have "java sr = java si" "java_initialized sr = java_initialized si"
          "java_args sr = java_args si"
          "check_outputs (procs sr) = check_outputs (procs si)"
          by (simp_all add: validated_def)
        moreover have "s1 = sr"
          using rr assms(2) i Inr Run_java Tokens
          by (auto simp: run_java_def format_java_cmd_def split: sum.splits)
        ultimately show ?thesis using st Inr ini Tokens by auto
      qed
    qed
  qed
qed

lemma format_java_cmd_ready:
  assumes "java_initialized s" and "java_args s = Tokens ts"
  shows "format_java_cmd w args s
    = (Inr ([java s] @ java_args_pfx s @ ts @ java_args_sfx s @ args), s)"
  using assms by (simp add: format_java_cmd_def init_java_initialized)

lemma run_java_ready:
  assumes "java_initialized s" and "java_args s = Tokens ts"
  shows "run_java w args fatal s
    = run w ([java s] @ java_args_pfx s @ ts @ java_args_sfx s @ args) fatal s"
  using assms by (simp add: run_java_def format_java_cmd_def init_java_initialized)

lemma format_java_cmds_ready:
  assumes "java_initialized s" and "java_args s = Tokens ts"
  shows "do_calls w (map Format_java_cmd argss) s = (Inr (), s)"
  by (induction argss) (simp_all add: format_java_cmd_ready [OF assms])


lemma do_calls_probe_count:
  assumes "do_calls w cs s = (r, s')"
  shows "count_list (check_outputs (procs s')) [java s, ''-d64'', ''-version'']
       \<le> count_list (check_outputs (procs s)) [java s, ''-d64'', ''-version''] + 1"
proof (cases cs)
  case Nil
  with assms show ?thesis by simp
next
  case (Cons c cs')
  obtain rc s1 where c: "do_call w c s = (rc, s1)" by (cases "do_call w c s")
  have one: "count_list (check_outputs (procs s1)) [java s, ''-d64'', ''-version'']
       \<le> count_list (check_outputs (procs s)) [java s, ''-d64'', ''-version''] + 1"
  proof (cases "java_initialized s")
    case True
    from do_call_initialized [OF True c] show ?thesis by simp
  next
    case False
    from do_call_first [OF False c] show ?thesis by auto
  qed
  show ?thesis
  proof (cases rc)
    case (Inl e)
    with assms Cons c have "s' = s1" by simp
    with one show ?thesis by simp
  next
    case (Inr u)
    have ini: "java_initialized s1"
    proof (cases "java_initialized s")
      case True
      from do_call_initialized [OF True c] True show ?thesis by (simp add: validated_def)
    next
      case False
      from do_call_first [OF False c] Inr show ?thesis by simp
    qed
    from assms Cons c Inr have "do_calls w cs' s1 = (r, s')" by simp
    from do_calls_initialized [OF ini this] one show ?thesis by simp
  qed
qed

lemmas java_eval_defs =
  init_java_def split_args_def delAtAndSplit_def probe_java_def check_output_def
  check_version_def isspace_def startswith_def format_java_cmd_def run_java_def run_def
  abort_def log_def Let_def example_world_def example_env_def

lemma example_first_call:
  "do_call example_world (Format_java_cmd [''Foo'']) example_env =
     (Inr (), example_env\<lparr>java_args := Tokens [''-ea'', ''-Xss2m'', ''-Xmx1g''],
        java_initialized := True,
        procs := [Via_check_output [''/jdk/bin/java'', ''-d64'', ''-version''],
                  Via_check_output [''/jdk/bin/java'', ''-version'']]\<rparr>)"
  by (simp add: java_eval_defs)

text \<open>
  C5. Over any sequence of calls to \<open>format_java_cmd\<close> and \<open>run_java\<close>, the body of
  \<open>init_java\<close> runs at most once: the \<open>-d64\<close> version probe, the first child process of
  the body, is launched at most once more than before the sequence. A first call that
  returns has run the probes exactly once (the \<open>-d64\<close> probe, and the plain one after it
  when \<open>-d64\<close> was refused) and leaves the object initialized, with its arguments split.
  In every state reached from there by further calls of the helpers, \<open>init_java\<close> returns
  at once with the state as it is, \<open>format_java_cmd\<close> returns the same Java command
  prefix followed by its arguments and changes nothing, \<open>run_java\<close> is \<open>run\<close> on that
  command, no further probe has been launched and the validated fields are the same; any
  number of \<open>format_java_cmd\<close> calls in a row all return and leave the state unchanged.
\<close>

theorem init_java_runs_at_most_once:
  "(do_calls w cs s = (r, s') \<longrightarrow>
      count_list (check_outputs (procs s')) [java s, ''-d64'', ''-version'']
        \<le> count_list (check_outputs (procs s)) [java s, ''-d64'', ''-version''] + 1)
   \<and> (\<not> java_initialized s \<and> do_call w c s = (Inr (), s1) \<longrightarrow>
        java_initialized s1
        \<and> (check_outputs (procs s1)
              = check_outputs (procs s) @ [[java s, ''-d64'', ''-version'']]
           \<or> check_outputs (procs s1)
              = check_outputs (procs s) @ [[java s, ''-d64'', ''-version''], [java s, ''-version'']])
        \<and> (\<exists>ts. java_args s1 = Tokens ts
             \<and> (\<forall>argss. do_calls w (map Format_java_cmd argss) s1 = (Inr (), s1))
             \<and> (\<forall>cs2 r2 s2. do_calls w cs2 s1 = (r2, s2) \<longrightarrow>
                   validated s2 = validated s1
                   \<and> check_outputs (procs s2) = check_outputs (procs s1)
                   \<and> init_java w s2 = (Inr (), s2)
                   \<and> (\<forall>args. format_java_cmd w args s2
                         = (Inr ([java s1] @ java_args_pfx s1 @ ts @ java_args_sfx s1 @ args),
                            s2))
                   \<and> (\<forall>args fatal. run_java w args fatal s2
                         = run w ([java s1] @ java_args_pfx s1 @ ts @ java_args_sfx s1 @ args)
                             fatal s2))))"
proof (intro conjI impI)
  assume "do_calls w cs s = (r, s')"
  then show "count_list (check_outputs (procs s')) [java s, ''-d64'', ''-version'']
        \<le> count_list (check_outputs (procs s)) [java s, ''-d64'', ''-version''] + 1"
    by (rule do_calls_probe_count)
next
  assume a: "\<not> java_initialized s \<and> do_call w c s = (Inr (), s1)"
  then have f: "\<not> java_initialized s" and c: "do_call w c s = (Inr (), s1)" by simp_all
  from do_call_first [OF f c] show ini: "java_initialized s1" by simp
  from do_call_first [OF f c]
  show "check_outputs (procs s1)
              = check_outputs (procs s) @ [[java s, ''-d64'', ''-version'']]
           \<or> check_outputs (procs s1)
              = check_outputs (procs s) @ [[java s, ''-d64'', ''-version''], [java s, ''-version'']]"
    by auto
  from do_call_first [OF f c] obtain ts where ts: "java_args s1 = Tokens ts" by auto
  have later: "validated s2 = validated s1
        \<and> check_outputs (procs s2) = check_outputs (procs s1)
        \<and> init_java w s2 = (Inr (), s2)
        \<and> (\<forall>args. format_java_cmd w args s2
              = (Inr ([java s1] @ java_args_pfx s1 @ ts @ java_args_sfx s1 @ args), s2))
        \<and> (\<forall>args fatal. run_java w args fatal s2
              = run w ([java s1] @ java_args_pfx s1 @ ts @ java_args_sfx s1 @ args) fatal s2)"
    if d: "do_calls w cs2 s1 = (r2, s2)" for cs2 r2 s2
  proof -
    from do_calls_initialized [OF ini d]
    have v: "validated s2 = validated s1"
      and p: "check_outputs (procs s2) = check_outputs (procs s1)"
      by simp_all
    from v ini ts have i2: "java_initialized s2" and t2: "java_args s2 = Tokens ts"
      and same: "java s2 = java s1" "java_args_pfx s2 = java_args_pfx s1"
        "java_args_sfx s2 = java_args_sfx s1"
      by (simp_all add: validated_def)
    from i2 have "init_java w s2 = (Inr (), s2)" by (rule init_java_initialized)
    with v p format_java_cmd_ready [OF i2 t2] run_java_ready [OF i2 t2] same
    show ?thesis by simp
  qed
  from ts format_java_cmds_ready [OF ini ts] later
  show "\<exists>ts. java_args s1 = Tokens ts
             \<and> (\<forall>argss. do_calls w (map Format_java_cmd argss) s1 = (Inr (), s1))
             \<and> (\<forall>cs2 r2 s2. do_calls w cs2 s1 = (r2, s2) \<longrightarrow>
                   validated s2 = validated s1
                   \<and> check_outputs (procs s2) = check_outputs (procs s1)
                   \<and> init_java w s2 = (Inr (), s2)
                   \<and> (\<forall>args. format_java_cmd w args s2
                         = (Inr ([java s1] @ java_args_pfx s1 @ ts @ java_args_sfx s1 @ args),
                            s2))
                   \<and> (\<forall>args fatal. run_java w args fatal s2
                         = run w ([java s1] @ java_args_pfx s1 @ ts @ java_args_sfx s1 @ args)
                             fatal s2))"
    by blast
qed

theorem init_java_runs_at_most_once_witness:
  "java_initialized (snd (do_call example_world (Format_java_cmd [''Foo'']) example_env))
   \<and> check_outputs (procs (snd (do_call example_world (Format_java_cmd [''Foo'']) example_env)))
       = [[''/jdk/bin/java'', ''-d64'', ''-version''], [''/jdk/bin/java'', ''-version'']]
   \<and> check_outputs (procs (snd (do_calls example_world [Run_java [''Bar''] False]
          (snd (do_call example_world (Format_java_cmd [''Foo'']) example_env)))))
       = [[''/jdk/bin/java'', ''-d64'', ''-version''], [''/jdk/bin/java'', ''-version'']]
   \<and> format_java_cmd example_world [''Baz'']
         (snd (do_calls example_world [Run_java [''Bar''] False]
            (snd (do_call example_world (Format_java_cmd [''Foo'']) example_env))))
       = (Inr [''/jdk/bin/java'', ''-ea'', ''-Xss2m'', ''-Xmx1g'', ''Baz''],
          snd (do_calls example_world [Run_java [''Bar''] False]
            (snd (do_call example_world (Format_java_cmd [''Foo'']) example_env))))"
proof -
  let ?s1 = "snd (do_call example_world (Format_java_cmd [''Foo'']) example_env)"
  let ?cs = "[Run_java [''Bar''] False]"
  have f: "\<not> java_initialized example_env" by (simp add: example_env_def)
  have c: "do_call example_world (Format_java_cmd [''Foo'']) example_env = (Inr (), ?s1)"
    by (simp add: example_first_call del: do_call.simps)
  have s1: "?s1 = example_env\<lparr>java_args := Tokens [''-ea'', ''-Xss2m'', ''-Xmx1g''],
        java_initialized := True,
        procs := [Via_check_output [''/jdk/bin/java'', ''-d64'', ''-version''],
                  Via_check_output [''/jdk/bin/java'', ''-version'']]\<rparr>"
    by (simp add: example_first_call del: do_call.simps)
  obtain r2 s2 where d: "do_calls example_world ?cs ?s1 = (r2, s2)"
    by (cases "do_calls example_world ?cs ?s1")
  from init_java_runs_at_most_once
    [of example_world "[]" example_env "Inr ()" example_env "Format_java_cmd [''Foo'']" ?s1]
    f c
  obtain ts where ini: "java_initialized ?s1" and ts: "java_args ?s1 = Tokens ts"
    and later: "\<forall>cs2 r2 s2. do_calls example_world cs2 ?s1 = (r2, s2) \<longrightarrow>
        validated s2 = validated ?s1
        \<and> check_outputs (procs s2) = check_outputs (procs ?s1)
        \<and> init_java example_world s2 = (Inr (), s2)
        \<and> (\<forall>args. format_java_cmd example_world args s2
              = (Inr ([java ?s1] @ java_args_pfx ?s1 @ ts @ java_args_sfx ?s1 @ args), s2))
        \<and> (\<forall>args fatal. run_java example_world args fatal s2
              = run example_world ([java ?s1] @ java_args_pfx ?s1 @ ts @ java_args_sfx ?s1 @ args)
                  fatal s2)"
    by (auto simp del: do_call.simps do_calls.simps)
  from later d have p2: "check_outputs (procs s2) = check_outputs (procs ?s1)"
    and fj: "format_java_cmd example_world [''Baz''] s2
              = (Inr ([java ?s1] @ java_args_pfx ?s1 @ ts @ java_args_sfx ?s1 @ [''Baz'']), s2)"
    by blast+
  from ts have tsv: "ts = [''-ea'', ''-Xss2m'', ''-Xmx1g'']"
    unfolding s1 by simp
  have j: "java ?s1 = ''/jdk/bin/java''" "java_args_pfx ?s1 = []" "java_args_sfx ?s1 = []"
    "check_outputs (procs ?s1)
       = [[''/jdk/bin/java'', ''-d64'', ''-version''], [''/jdk/bin/java'', ''-version'']]"
    unfolding s1 by (simp_all add: example_env_def)
  from d have s2: "snd (do_calls example_world ?cs ?s1) = s2" by simp
  show ?thesis
    unfolding s2 using ini p2 fj tsv j by (simp del: do_call.simps do_calls.simps)
qed










end
